theory Spec2Isabelle
  imports Main "HOL-Library.Sublist"
begin

section \<open>The substitution engine of cenv (src/cenv.cc, namespace cenv)\<close>

subsection \<open>Exceptions\<close>

text \<open>
  The engine throws one exception class, \<open>syntax_exception\<close>, at four places, each with
  its own message. The constructors name the four throw sites; \<open>message\<close> is the string
  the source builds there, and \<open>what\<close> is what \<open>what ()\<close> gives for it: a C string, which
  ends before the first NUL byte.
\<close>

datatype syntax_exception =
    UnknownVariable string
  | RecursionLimitExceeded
  | InvalidVariableStart char
  | UnterminatedBracedVariable

fun message :: "syntax_exception \<Rightarrow> string" where
  "message (UnknownVariable key) = ''Unknown variable: '' @ key"
| "message RecursionLimitExceeded = ''Recursion depth limit exceeded in variable''"
| "message (InvalidVariableStart ch) = ''Invalid variable start character: '' @ [ch]"
| "message UnterminatedBracedVariable = ''Unterminated braced variable''"

definition what :: "syntax_exception \<Rightarrow> string" where
  "what e = takeWhile (\<lambda>c. c \<noteq> CHR 0x00) (message e)"

text \<open>
  How a piece of the function body ends: it runs to its end, it throws, or the
  \<open>assert\<close> in \<open>pop\<close> fails. A throw does not undo what was written before it, so every
  operation returns the state it leaves behind together with the outcome.
\<close>

datatype outcome = Done | Throw syntax_exception | Abort

subsection \<open>State of one call of \<open>substitute_vars\<close>\<close>

record stack_entry =
  braced :: bool
  contents :: string

text \<open>
  The local variables \<open>after_dollar\<close> and \<open>stack\<close> (top of the stack first), and the
  characters that the caller's \<open>std::ostream\<close> has received. The stream is taken to
  accept every character put to it.
\<close>

record state =
  after_dollar :: bool
  stack :: "stack_entry list"
  output_text :: string

type_synonym variables = "string \<rightharpoonup> string"

definition andthen :: "outcome \<times> state \<Rightarrow> (state \<Rightarrow> outcome \<times> state) \<Rightarrow> outcome \<times> state" where
  "andthen r k = (case r of (Done, s) \<Rightarrow> k s | (Throw e, s) \<Rightarrow> (Throw e, s) | (Abort, s) \<Rightarrow> (Abort, s))"

subsection \<open>Helper functions\<close>

definition is_braced :: "state \<Rightarrow> bool" where
  "is_braced s = (case stack s of [] \<Rightarrow> False | e # es \<Rightarrow> braced e)"

definition is_unbraced :: "state \<Rightarrow> bool" where
  "is_unbraced s = (case stack s of [] \<Rightarrow> False | e # es \<Rightarrow> \<not> braced e)"

definition lookup :: "variables \<Rightarrow> string \<Rightarrow> syntax_exception + string" where
  "lookup vars key = (case vars key of Some v \<Rightarrow> Inr v | None \<Rightarrow> Inl (UnknownVariable key))"

definition push :: "bool \<Rightarrow> state \<Rightarrow> outcome \<times> state" where
  "push b s =
     (if length (stack s) \<ge> 1024 then (Throw RecursionLimitExceeded, s)
      else (Done, s\<lparr>stack := \<lparr>braced = b, contents = []\<rparr> # stack s\<rparr>))"

definition write_char :: "char \<Rightarrow> state \<Rightarrow> state" where
  "write_char ch s =
     (case stack s of
        [] \<Rightarrow> s\<lparr>output_text := output_text s @ [ch]\<rparr>
      | e # es \<Rightarrow> s\<lparr>stack := e\<lparr>contents := contents e @ [ch]\<rparr> # es\<rparr>)"

definition write_str :: "string \<Rightarrow> state \<Rightarrow> state" where
  "write_str str s =
     (case stack s of
        [] \<Rightarrow> s\<lparr>output_text := output_text s @ str\<rparr>
      | e # es \<Rightarrow> s\<lparr>stack := e\<lparr>contents := contents e @ str\<rparr> # es\<rparr>)"

definition pop :: "variables \<Rightarrow> state \<Rightarrow> outcome \<times> state" where
  "pop vars s =
     (case stack s of
        [] \<Rightarrow> (Abort, s)
      | e # es \<Rightarrow>
          (case lookup vars (contents e) of
             Inl exn \<Rightarrow> (Throw exn, s\<lparr>stack := es\<rparr>)
           | Inr str \<Rightarrow> (Done, write_str str (s\<lparr>stack := es\<rparr>))))"

subsection \<open>The automaton\<close>

text \<open>The characters of the last group of \<open>case\<close> labels of the \<open>switch\<close>.\<close>

definition is_ident_char :: "char \<Rightarrow> bool" where
  "is_ident_char ch =
     (ch \<in> set ''_abcdefghijklmnopqrstuvwxyzABCDEFGHIJKLMNOPQRSTUVWXYZ0123456789'')"

text \<open>
  The statements under that group of labels, which the \<open>default\<close> label falls through
  to. The flag \<open>after_dollar\<close> is not assigned here.
\<close>

definition ident_case :: "char \<Rightarrow> state \<Rightarrow> outcome \<times> state" where
  "ident_case ch s =
     andthen (if after_dollar s then push False s else (Done, s))
       (\<lambda>s'. (Done, write_char ch s'))"

definition pop_if_unbraced :: "variables \<Rightarrow> state \<Rightarrow> outcome \<times> state" where
  "pop_if_unbraced vars s = (if is_unbraced s then pop vars s else (Done, s))"

text \<open>One pass through the \<open>switch\<close>, for the character \<open>ch\<close>.\<close>

definition step :: "variables \<Rightarrow> char \<Rightarrow> state \<Rightarrow> outcome \<times> state" where
  "step vars ch s =
     (if ch = CHR ''$'' then
        (if after_dollar s then (Done, write_char CHR ''$'' (s\<lparr>after_dollar := False\<rparr>))
         else andthen (pop_if_unbraced vars s) (\<lambda>s'. (Done, s'\<lparr>after_dollar := True\<rparr>)))
      else if ch = CHR ''{'' then
        (if after_dollar s then push True (s\<lparr>after_dollar := False\<rparr>)
         else andthen (pop_if_unbraced vars s) (\<lambda>s'. (Done, write_char CHR ''{'' s')))
      else if ch = CHR ''}'' then
        (if is_braced s \<and> \<not> after_dollar s then pop vars s
         else (Done, write_char CHR ''}'' (s\<lparr>after_dollar := False\<rparr>)))
      else if is_ident_char ch then ident_case ch s
      else
        (if is_unbraced s then pop vars s
         else if after_dollar s then (Throw (InvalidVariableStart ch), s)
         else ident_case ch s))"

text \<open>The first loop: \<open>while (input.get (ch)) switch (ch) ...\<close>.\<close>

fun automaton :: "variables \<Rightarrow> string \<Rightarrow> state \<Rightarrow> outcome \<times> state" where
  "automaton vars [] s = (Done, s)"
| "automaton vars (ch # rest) s = andthen (step vars ch s) (automaton vars rest)"

text \<open>The second loop: \<open>while (!stack.empty ()) ...\<close>.\<close>

function drain :: "variables \<Rightarrow> state \<Rightarrow> outcome \<times> state" where
  "drain vars s =
     (if stack s = [] then (Done, s)
      else if is_braced s then (Throw UnterminatedBracedVariable, s)
      else (case pop vars s of
              (Done, s') \<Rightarrow> drain vars s'
            | (Throw e, s') \<Rightarrow> (Throw e, s')
            | (Abort, s') \<Rightarrow> (Abort, s')))"
  by pat_completeness auto
termination
proof (relation "measure (\<lambda>(vars, s). length (stack s))")
  show "wf (measure (\<lambda>(vars, s). length (stack s)))"
    by simp
next
  fix vars :: variables and s x s'
  assume "stack s \<noteq> []" and "(x, s') = pop vars s"
  then show "((vars, s'), (vars, s)) \<in> measure (\<lambda>(vars, s). length (stack s))"
    by (auto simp: pop_def write_str_def split: list.splits sum.splits)
qed

declare drain.simps [simp del]

definition initial :: "string \<Rightarrow> state" where
  "initial out = \<lparr>after_dollar = False, stack = [], output_text = out\<rparr>"

text \<open>
  \<open>substitute_vars input output variables\<close>: \<open>out\<close> is what the stream holds before the
  call; the result is how the call ends and what the stream holds then.
\<close>

definition substitute_vars :: "string \<Rightarrow> string \<Rightarrow> variables \<Rightarrow> outcome \<times> string" where
  "substitute_vars inp out vars =
     (case andthen (automaton vars inp (initial out)) (drain vars) of
        (r, s) \<Rightarrow> (r, output_text s))"

record substitor =
  input :: string
  variables :: variables

text \<open>\<open>operator <<\<close> on a stream and a \<open>substitor\<close>.\<close>

definition operator_shl :: "string \<Rightarrow> substitor \<Rightarrow> outcome \<times> string" where
  "operator_shl stream subst = substitute_vars (input subst) stream (variables subst)"

text \<open>
  The contract \<open>expand\<close> of the specification: the engine run through \<open>operator <<\<close> on
  a stream that is empty before the call. The result pairs the outcome with the text
  the stream holds when the call ends.
\<close>

definition expand :: "string \<Rightarrow> variables \<Rightarrow> outcome \<times> string" where
  "expand template vars = operator_shl [] \<lparr>input = template, variables = vars\<rparr>"

subsection \<open>Auxiliary notions for the properties\<close>

text \<open>The state in which the stream already held \<open>out\<close> before everything else.\<close>

definition prepend_output :: "string \<Rightarrow> state \<Rightarrow> state" where
  "prepend_output out s = s\<lparr>output_text := out @ output_text s\<rparr>"

text \<open>
  A character that is neither one of the three with a \<open>case\<close> label of their own nor an
  identifier character: one that reaches the \<open>default\<close> label.
\<close>

definition is_other_char :: "char \<Rightarrow> bool" where
  "is_other_char ch =
     (ch \<noteq> CHR ''$'' \<and> ch \<noteq> CHR ''{'' \<and> ch \<noteq> CHR ''}'' \<and> \<not> is_ident_char ch)"

text \<open>Every character held by a frame of the stack belongs to the set \<open>A\<close>.\<close>

definition frames_within :: "char set \<Rightarrow> state \<Rightarrow> bool" where
  "frames_within A s = (\<forall>e \<in> set (stack s). set (contents e) \<subseteq> A)"

section \<open>Properties\<close>

subsection \<open>Sequencing and the two loops\<close>

lemmas engine_defs =
  step_def pop_if_unbraced_def is_unbraced_def is_braced_def pop_def push_def
  write_char_def write_str_def lookup_def ident_case_def

lemmas run_defs = expand_def operator_shl_def substitute_vars_def initial_def

lemma andthen_Done [simp]: "andthen (Done, s) k = k s"
  by (simp add: andthen_def)

lemma andthen_Throw [simp]: "andthen (Throw e, s) k = (Throw e, s)"
  by (simp add: andthen_def)

lemma andthen_Abort [simp]: "andthen (Abort, s) k = (Abort, s)"
  by (simp add: andthen_def)

lemma automaton_append:
  "automaton vars (p @ q) s = andthen (automaton vars p s) (automaton vars q)"
proof (induction p arbitrary: s)
  case Nil
  show ?case by simp
next
  case (Cons ch p)
  show ?case
  proof (cases "step vars ch s")
    case (Pair r s')
    then show ?thesis using Cons.IH [of s'] by (cases r) simp_all
  qed
qed

lemma drain_empty: "stack s = [] \<Longrightarrow> drain vars s = (Done, s)"
  by (simp add: drain.simps)

text \<open>A character other than the dollar sign, read in plain-text mode, goes to the stream.\<close>

lemma step_plain:
  assumes "stack s = []" and "\<not> after_dollar s" and "ch \<noteq> CHR ''$''"
  shows "step vars ch s = (Done, s\<lparr>output_text := output_text s @ [ch]\<rparr>)"
  using assms by (simp add: engine_defs)

lemma automaton_plain:
  assumes "stack s = []" and "\<not> after_dollar s" and "CHR ''$'' \<notin> set body"
  shows "automaton vars body s = (Done, s\<lparr>output_text := output_text s @ body\<rparr>)"
  using assms
proof (induction body arbitrary: s)
  case Nil
  show ?case by simp
next
  case (Cons ch body)
  from Cons.prems have st: "step vars ch s = (Done, s\<lparr>output_text := output_text s @ [ch]\<rparr>)"
    by (intro step_plain) auto
  from Cons.prems show ?case
    by (simp add: st Cons.IH)
qed

subsection \<open>Dollar-free text\<close>

lemma expand_plain:
  assumes "CHR ''$'' \<notin> set body"
  shows "expand body vars = (Done, body)"
  using assms
  by (simp add: run_defs automaton_plain drain_empty)

text \<open>
  C9: expand is the identity on text without a dollar sign: for every string \<open>s\<close> in
  which \<open>$\<close> does not occur and every mapping \<open>m\<close>, the call ends normally and the
  stream holds exactly \<open>s\<close>.
\<close>

theorem identity_on_dollar_free:
  assumes "CHR ''$'' \<notin> set s"
  shows "expand s m = (Done, s)"
  using assms by (rule expand_plain)

theorem identity_on_dollar_free_witness:
  "CHR ''$'' \<notin> set ''a{b}-c'' \<and> expand ''a{b}-c'' [''a'' \<mapsto> ''z''] = (Done, ''a{b}-c'')"
  using identity_on_dollar_free [of "''a{b}-c''" "[''a'' \<mapsto> ''z'']"] by simp

text \<open>Literal text read while a braced frame is on top is appended to that frame.\<close>

lemma step_in_braced:
  assumes "stack s = e # es" and "braced e" and "\<not> after_dollar s"
    and "ch \<noteq> CHR ''$''" and "ch \<noteq> CHR ''}''"
  shows "step vars ch s = (Done, s\<lparr>stack := e\<lparr>contents := contents e @ [ch]\<rparr> # es\<rparr>)"
  using assms by (simp add: engine_defs)

lemma automaton_in_braced:
  assumes "stack s = e # es" and "braced e" and "\<not> after_dollar s"
    and "CHR ''$'' \<notin> set body" and "CHR ''}'' \<notin> set body"
  shows "automaton vars body s = (Done, s\<lparr>stack := e\<lparr>contents := contents e @ body\<rparr> # es\<rparr>)"
  using assms
proof (induction body arbitrary: s e)
  case Nil
  then show ?case by simp
next
  case (Cons ch body)
  let ?e = "e\<lparr>contents := contents e @ [ch]\<rparr>"
  let ?s = "s\<lparr>stack := ?e # es\<rparr>"
  from Cons.prems have st: "step vars ch s = (Done, ?s)"
    by (intro step_in_braced) auto
  from Cons.prems have "automaton vars body ?s =
      (Done, ?s\<lparr>stack := ?e\<lparr>contents := contents ?e @ body\<rparr> # es\<rparr>)"
    by (intro Cons.IH) auto
  then show ?case by (simp add: st)
qed

text \<open>Reading \<open>${\<close> outside an unbraced frame pushes a braced frame, if there is room.\<close>

lemma automaton_open:
  assumes "\<not> after_dollar s" and "\<not> is_unbraced s" and "length (stack s) < 1024"
  shows "automaton vars ''${'' s = (Done, s\<lparr>stack := \<lparr>braced = True, contents = []\<rparr> # stack s\<rparr>)"
  using assms by (simp add: engine_defs)

lemma automaton_open_full:
  assumes "\<not> after_dollar s" and "\<not> is_unbraced s" and "length (stack s) \<ge> 1024"
  shows "automaton vars (''${'' @ rest) s = (Throw RecursionLimitExceeded, s)"
  using assms by (simp add: engine_defs)

lemma pop_found:
  assumes "stack s = e # rest" and "vars (contents e) = Some v"
  shows "pop vars s = (Done, write_str v (s\<lparr>stack := rest\<rparr>))"
  using assms by (simp add: pop_def lookup_def)

subsection \<open>Resolving a frame\<close>

text \<open>
  C7: nested references compose into the enclosing name. When a frame is resolved and
  its name is in the mapping, the value is appended to the contents of the frame that is
  now on top if the stack is not empty, and to the stream otherwise; so
  \<open>expand("${A${B}}", {"B":"X", "AX":"hello"})\<close> is \<open>"hello"\<close>.
\<close>

theorem resolved_value_goes_to_enclosing_sink:
  "(stack s = e # f # fs \<and> vars (contents e) = Some v \<longrightarrow>
      pop vars s = (Done, s\<lparr>stack := f\<lparr>contents := contents f @ v\<rparr> # fs\<rparr>))
   \<and> (stack s = [e] \<and> vars (contents e) = Some v \<longrightarrow>
      pop vars s = (Done, s\<lparr>stack := [], output_text := output_text s @ v\<rparr>))
   \<and> expand ''${A${B}}'' [''B'' \<mapsto> ''X'', ''AX'' \<mapsto> ''hello''] = (Done, ''hello'')"
proof (intro conjI impI)
  assume "stack s = e # f # fs \<and> vars (contents e) = Some v"
  then show "pop vars s = (Done, s\<lparr>stack := f\<lparr>contents := contents f @ v\<rparr> # fs\<rparr>)"
    by (simp add: pop_found write_str_def)
next
  assume "stack s = [e] \<and> vars (contents e) = Some v"
  then show "pop vars s = (Done, s\<lparr>stack := [], output_text := output_text s @ v\<rparr>)"
    by (simp add: pop_found write_str_def)
next
  show "expand ''${A${B}}'' [''B'' \<mapsto> ''X'', ''AX'' \<mapsto> ''hello''] = (Done, ''hello'')"
    by (simp add: run_defs engine_defs is_ident_char_def drain.simps)
qed

theorem resolved_value_goes_to_enclosing_sink_witness:
  "pop [''B'' \<mapsto> ''X'']
     \<lparr>after_dollar = False,
      stack = [\<lparr>braced = True, contents = ''B''\<rparr>, \<lparr>braced = True, contents = ''A''\<rparr>],
      output_text = ''o''\<rparr>
   = (Done, \<lparr>after_dollar = False, stack = [\<lparr>braced = True, contents = ''AX''\<rparr>],
             output_text = ''o''\<rparr>)
   \<and> pop [''AX'' \<mapsto> ''hello'']
     \<lparr>after_dollar = False, stack = [\<lparr>braced = True, contents = ''AX''\<rparr>], output_text = ''o''\<rparr>
   = (Done, \<lparr>after_dollar = False, stack = [], output_text = ''ohello''\<rparr>)"
  using resolved_value_goes_to_enclosing_sink
    [of "\<lparr>after_dollar = False,
      stack = [\<lparr>braced = True, contents = ''B''\<rparr>, \<lparr>braced = True, contents = ''A''\<rparr>],
      output_text = ''o''\<rparr>" "\<lparr>braced = True, contents = ''B''\<rparr>"
      "\<lparr>braced = True, contents = ''A''\<rparr>" "[]" "[''B'' \<mapsto> ''X'']" "''X''"]
    resolved_value_goes_to_enclosing_sink
    [of "\<lparr>after_dollar = False, stack = [\<lparr>braced = True, contents = ''AX''\<rparr>], output_text = ''o''\<rparr>"
      "\<lparr>braced = True, contents = ''AX''\<rparr>" _ _ "[''AX'' \<mapsto> ''hello'']" "''hello''"]
  by simp

lemma expand_braced_name:
  assumes "vars n = Some v" and "CHR ''$'' \<notin> set n" and "CHR ''}'' \<notin> set n"
  shows "expand (''${'' @ n @ ''}'') vars = (Done, v)"
proof -
  let ?s0 = "initial []"
  let ?s1 = "?s0\<lparr>stack := [\<lparr>braced = True, contents = []\<rparr>]\<rparr>"
  let ?s2 = "?s0\<lparr>stack := [\<lparr>braced = True, contents = n\<rparr>]\<rparr>"
  have a: "automaton vars ''${'' ?s0 = (Done, ?s1)"
    by (simp add: engine_defs initial_def)
  have b: "automaton vars n ?s1 = (Done, ?s2)"
    using assms(2,3) automaton_in_braced [of ?s1 "\<lparr>braced = True, contents = []\<rparr>" "[]" n vars]
    by (simp add: initial_def)
  have c: "automaton vars ''}'' ?s2 = (Done, ?s0\<lparr>output_text := v\<rparr>)"
    using assms(1) by (simp add: engine_defs initial_def)
  have "automaton vars (''${'' @ n @ ''}'') ?s0 = (Done, ?s0\<lparr>output_text := v\<rparr>)"
    unfolding automaton_append a b c by (simp only: a b c andthen_Done)
  then show ?thesis
    by (simp add: expand_def operator_shl_def substitute_vars_def drain_empty initial_def)
qed

lemma expand_unbraced_char:
  assumes "vars [x] = Some v" and "is_ident_char x"
  shows "expand [CHR ''$'', x] vars = (Done, v)"
proof -
  from assms(2) have "x \<noteq> CHR ''$''" "x \<noteq> CHR ''{''" "x \<noteq> CHR ''}''"
    by (auto simp: is_ident_char_def)
  with assms show ?thesis
    by (simp add: run_defs engine_defs drain.simps)
qed

text \<open>
  C8: a resolved value is not scanned again. Whatever the value \<open>v\<close> of a name is, also
  one with dollar signs and braces in it, the reference is replaced by exactly \<open>v\<close>; so
  \<open>expand("$X", {"X":"$Y"})\<close> is \<open>"$Y"\<close>, and expanding the result of an expansion
  again can give a different text.
\<close>

theorem resolved_value_not_rescanned:
  "(vars n = Some v \<and> CHR ''$'' \<notin> set n \<and> CHR ''}'' \<notin> set n \<longrightarrow>
      expand (''${'' @ n @ ''}'') vars = (Done, v))
   \<and> (vars [x] = Some v \<and> is_ident_char x \<longrightarrow> expand [CHR ''$'', x] vars = (Done, v))
   \<and> expand ''$X'' [''X'' \<mapsto> ''$Y''] = (Done, ''$Y'')
   \<and> expand (snd (expand ''$X'' [''X'' \<mapsto> ''$Y'', ''Y'' \<mapsto> ''z'']))
         [''X'' \<mapsto> ''$Y'', ''Y'' \<mapsto> ''z'']
       \<noteq> expand ''$X'' [''X'' \<mapsto> ''$Y'', ''Y'' \<mapsto> ''z'']"
proof (intro conjI impI)
  assume "vars n = Some v \<and> CHR ''$'' \<notin> set n \<and> CHR ''}'' \<notin> set n"
  then show "expand (''${'' @ n @ ''}'') vars = (Done, v)"
    using expand_braced_name [of vars n v] by simp
next
  assume "vars [x] = Some v \<and> is_ident_char x"
  then show "expand [CHR ''$'', x] vars = (Done, v)"
    by (simp add: expand_unbraced_char)
next
  show "expand ''$X'' [''X'' \<mapsto> ''$Y''] = (Done, ''$Y'')"
    by (simp add: run_defs engine_defs is_ident_char_def drain.simps)
next
  have "expand ''$X'' [''X'' \<mapsto> ''$Y'', ''Y'' \<mapsto> ''z''] = (Done, ''$Y'')"
    by (simp add: run_defs engine_defs is_ident_char_def drain.simps)
  moreover have "expand ''$Y'' [''X'' \<mapsto> ''$Y'', ''Y'' \<mapsto> ''z''] = (Done, ''z'')"
    by (simp add: run_defs engine_defs is_ident_char_def drain.simps)
  ultimately show "expand (snd (expand ''$X'' [''X'' \<mapsto> ''$Y'', ''Y'' \<mapsto> ''z'']))
         [''X'' \<mapsto> ''$Y'', ''Y'' \<mapsto> ''z'']
       \<noteq> expand ''$X'' [''X'' \<mapsto> ''$Y'', ''Y'' \<mapsto> ''z'']"
    by simp
qed

theorem resolved_value_not_rescanned_witness:
  "expand ''${HOME}'' [''HOME'' \<mapsto> ''${HOME}$X'', ''X'' \<mapsto> ''no''] = (Done, ''${HOME}$X'')
   \<and> expand ''$X'' [''X'' \<mapsto> ''${X}''] = (Done, ''${X}'')"
  using resolved_value_not_rescanned
    [of "[''HOME'' \<mapsto> ''${HOME}$X'', ''X'' \<mapsto> ''no'']" "''HOME''" "''${HOME}$X''" "CHR ''Y''"]
    resolved_value_not_rescanned
    [of "[''X'' \<mapsto> ''${X}'']" "''X''" "''${X}''" "CHR ''X''"]
  by (simp add: is_ident_char_def)

subsection \<open>The depth limit\<close>

lemma automaton_opens:
  assumes "\<not> after_dollar s" and "\<not> is_unbraced s" and "length (stack s) + n \<le> 1024"
  shows "automaton vars (concat (replicate n ''${'')) s =
    (Done, s\<lparr>stack := replicate n \<lparr>braced = True, contents = []\<rparr> @ stack s\<rparr>)"
  using assms
proof (induction n arbitrary: s)
  case 0
  show ?case by simp
next
  case (Suc n)
  let ?s1 = "s\<lparr>stack := \<lparr>braced = True, contents = []\<rparr> # stack s\<rparr>"
  from Suc.prems have a: "automaton vars ''${'' s = (Done, ?s1)"
    by (intro automaton_open) auto
  from Suc.prems have b: "automaton vars (concat (replicate n ''${'')) ?s1 =
      (Done, ?s1\<lparr>stack := replicate n \<lparr>braced = True, contents = []\<rparr> @ stack ?s1\<rparr>)"
    by (intro Suc.IH) (auto simp: is_unbraced_def)
  have "automaton vars (''${'' @ concat (replicate n ''${'')) s =
      (Done, ?s1\<lparr>stack := replicate n \<lparr>braced = True, contents = []\<rparr> @ stack ?s1\<rparr>)"
    by (simp only: automaton_append a b andthen_Done)
  then show ?case
    by (simp add: replicate_app_Cons_same)
qed

lemma automaton_closes:
  assumes "stack s = \<lparr>braced = True, contents = nm 0\<rparr> # replicate k \<lparr>braced = True, contents = []\<rparr>"
    and "\<not> after_dollar s" and "\<forall>i\<le>k. vars (nm i) = Some (nm (Suc i))"
  shows "automaton vars (replicate (Suc k) CHR ''}'') s =
    (Done, s\<lparr>stack := [], output_text := output_text s @ nm (Suc k)\<rparr>)"
  using assms
proof (induction k arbitrary: s nm)
  case 0
  then show ?case by (simp add: engine_defs)
next
  case (Suc k)
  let ?s1 = "s\<lparr>stack := \<lparr>braced = True, contents = nm (Suc 0)\<rparr> # replicate k \<lparr>braced = True, contents = []\<rparr>\<rparr>"
  from Suc.prems have "vars (nm 0) = Some (nm (Suc 0))" by blast
  with Suc.prems(1,2) have a: "step vars CHR ''}'' s = (Done, ?s1)"
    by (simp add: engine_defs)
  from Suc.prems have "automaton vars (replicate (Suc k) CHR ''}'') ?s1 =
      (Done, ?s1\<lparr>stack := [], output_text := output_text ?s1 @ (nm \<circ> Suc) (Suc k)\<rparr>)"
    by (intro Suc.IH) auto
  then show ?case
    using a by simp
qed

lemma expand_nested:
  assumes "n \<le> 1024" and "\<forall>i<n. vars (nm i) = Some (nm (Suc i))"
    and "CHR ''$'' \<notin> set (nm 0)" and "CHR ''}'' \<notin> set (nm 0)"
  shows "expand (concat (replicate n ''${'') @ nm 0 @ replicate n CHR ''}'') vars = (Done, nm n)"
proof (cases n)
  case 0
  with assms(3) show ?thesis
    by (simp add: expand_plain)
next
  case (Suc k)
  let ?B = "\<lparr>braced = True, contents = []\<rparr>"
  let ?s0 = "initial []"
  let ?s1 = "?s0\<lparr>stack := replicate n ?B\<rparr>"
  let ?s2 = "?s0\<lparr>stack := \<lparr>braced = True, contents = nm 0\<rparr> # replicate k ?B\<rparr>"
  have a: "automaton vars (concat (replicate n ''${'')) ?s0 = (Done, ?s1)"
    using assms(1) automaton_opens [of ?s0 n vars]
    by (simp add: initial_def is_unbraced_def)
  have b: "automaton vars (nm 0) ?s1 = (Done, ?s2)"
    using assms(3,4) Suc automaton_in_braced [of ?s1 ?B "replicate k ?B" "nm 0" vars]
    by (simp add: initial_def)
  have c: "automaton vars (replicate n CHR ''}'') ?s2 = (Done, ?s0\<lparr>output_text := nm n\<rparr>)"
    using assms(2) Suc automaton_closes [of ?s2 nm k vars]
    by (simp add: initial_def less_Suc_eq_le)
  have "automaton vars (concat (replicate n ''${'') @ nm 0 @ replicate n CHR ''}'') ?s0 =
      (Done, ?s0\<lparr>output_text := nm n\<rparr>)"
    by (simp only: automaton_append a b c andthen_Done)
  then show ?thesis
    by (simp add: run_defs drain_empty)
qed

lemma not_unbraced_replicate:
  "\<not> is_unbraced (s\<lparr>stack := replicate k \<lparr>braced = True, contents = []\<rparr>\<rparr>)"
  by (cases k) (simp_all add: is_unbraced_def)

lemma expand_too_deep:
  "expand (concat (replicate 1025 ''${'') @ rest) vars = (Throw RecursionLimitExceeded, [])"
proof -
  let ?B = "\<lparr>braced = True, contents = []\<rparr>"
  let ?s0 = "initial []"
  let ?s1 = "?s0\<lparr>stack := replicate 1024 ?B\<rparr>"
  have split: "concat (replicate 1025 ''${'') @ rest = concat (replicate 1024 ''${'') @ (''${'' @ rest)"
  proof -
    have "(1025::nat) = 1024 + 1" by simp
    then have "replicate 1025 ''${'' = replicate 1024 ''${'' @ [''${'']"
      by (simp only: replicate_add) simp
    then show ?thesis by simp
  qed
  have a: "automaton vars (concat (replicate 1024 ''${'')) ?s0 = (Done, ?s1)"
    using automaton_opens [of ?s0 1024 vars]
    by (simp add: initial_def is_unbraced_def)
  have b: "automaton vars (''${'' @ rest) ?s1 = (Throw RecursionLimitExceeded, ?s1)"
    by (intro automaton_open_full not_unbraced_replicate) (simp_all add: initial_def)
  have "automaton vars (concat (replicate 1024 ''${'') @ (''${'' @ rest)) ?s0 =
      andthen (automaton vars (concat (replicate 1024 ''${'')) ?s0) (automaton vars (''${'' @ rest))"
    by (rule automaton_append)
  then have "automaton vars (concat (replicate 1025 ''${'') @ rest) ?s0 = (Throw RecursionLimitExceeded, ?s1)"
    by (simp only: split a b andthen_Done)
  then show ?thesis
    by (simp add: run_defs)
qed

text \<open>The stack never holds more than 1024 frames.\<close>

lemma step_stack_bound:
  assumes "length (stack s) \<le> 1024" and "step vars ch s = (r, s')"
  shows "length (stack s') \<le> 1024"
  using assms
  by (auto simp: engine_defs andthen_def split: if_splits list.splits option.splits)

lemma automaton_stack_bound:
  assumes "length (stack s) \<le> 1024" and "automaton vars p s = (r, s')"
  shows "length (stack s') \<le> 1024"
  using assms
proof (induction p arbitrary: s)
  case Nil
  then show ?case by simp
next
  case (Cons ch p)
  obtain r1 s1 where st: "step vars ch s = (r1, s1)"
    by (cases "step vars ch s")
  with Cons.prems(1) have bound: "length (stack s1) \<le> 1024"
    by (rule step_stack_bound)
  show ?case
  proof (cases r1)
    case Done
    with st Cons.prems(2) have "automaton vars p s1 = (r, s')" by simp
    with bound show ?thesis by (rule Cons.IH)
  next
    case (Throw e)
    with st Cons.prems(2) bound show ?thesis by simp
  next
    case Abort
    with st Cons.prems(2) bound show ?thesis by simp
  qed
qed

text \<open>
  C5: a template of 1025 nested \<open>${\<close> opens, whatever follows them, fails with
  RecursionLimitExceeded; a template of \<open>n \<le> 1024\<close> nested opens around a name, each
  closed by a brace, succeeds when every name assembled on the way is in the mapping
  (\<open>nm 0\<close> is the innermost name, \<open>nm (i + 1)\<close> the value of \<open>nm i\<close>, and the result is
  \<open>nm n\<close>); and in every state the scan reaches, pushing a frame fails exactly when the
  stack holds 1024 frames.
\<close>

theorem recursion_limit:
  "expand (concat (replicate 1025 ''${'') @ rest) vars = (Throw RecursionLimitExceeded, [])
   \<and> (n \<le> 1024 \<and> (\<forall>i<n. vars (nm i) = Some (nm (Suc i)))
        \<and> CHR ''$'' \<notin> set (nm 0) \<and> CHR ''}'' \<notin> set (nm 0) \<longrightarrow>
      expand (concat (replicate n ''${'') @ nm 0 @ replicate n CHR ''}'') vars = (Done, nm n))
   \<and> (automaton vars p (initial out) = (Done, s) \<longrightarrow>
      (push b s = (Throw RecursionLimitExceeded, s)) = (length (stack s) = 1024)
      \<and> (push b s = (Done, s\<lparr>stack := \<lparr>braced = b, contents = []\<rparr> # stack s\<rparr>))
          = (length (stack s) < 1024))"
proof (intro conjI impI)
  show "expand (concat (replicate 1025 ''${'') @ rest) vars = (Throw RecursionLimitExceeded, [])"
    by (rule expand_too_deep)
next
  assume "n \<le> 1024 \<and> (\<forall>i<n. vars (nm i) = Some (nm (Suc i)))
        \<and> CHR ''$'' \<notin> set (nm 0) \<and> CHR ''}'' \<notin> set (nm 0)"
  then show "expand (concat (replicate n ''${'') @ nm 0 @ replicate n CHR ''}'') vars = (Done, nm n)"
    using expand_nested [of n vars nm] by blast
next
  assume "automaton vars p (initial out) = (Done, s)"
  then have "length (stack s) \<le> 1024"
    using automaton_stack_bound [of "initial out" vars p Done s] by (simp add: initial_def)
  then show "(push b s = (Throw RecursionLimitExceeded, s)) = (length (stack s) = 1024)"
    by (auto simp: push_def)
next
  show "(push b s = (Done, s\<lparr>stack := \<lparr>braced = b, contents = []\<rparr> # stack s\<rparr>))
          = (length (stack s) < 1024)"
    by (auto simp: push_def)
qed

theorem recursion_limit_witness:
  "expand ''${${A}}'' [''A'' \<mapsto> ''B'', ''B'' \<mapsto> ''C''] = (Done, ''C'')
   \<and> automaton Map.empty ''${'' (initial []) =
       (Done, \<lparr>after_dollar = False, stack = [\<lparr>braced = True, contents = []\<rparr>], output_text = []\<rparr>)
   \<and> push True \<lparr>after_dollar = False, stack = [\<lparr>braced = True, contents = []\<rparr>], output_text = []\<rparr>
       \<noteq> (Throw RecursionLimitExceeded,
           \<lparr>after_dollar = False, stack = [\<lparr>braced = True, contents = []\<rparr>], output_text = []\<rparr>)"
proof -
  let ?vars = "[''A'' \<mapsto> ''B'', ''B'' \<mapsto> ''C'']"
  let ?nm = "\<lambda>i. [''A'', ''B'', ''C''] ! i"
  let ?s = "\<lparr>after_dollar = False, stack = [\<lparr>braced = True, contents = []\<rparr>], output_text = []\<rparr>"
  have h: "\<forall>i<2. ?vars (?nm i) = Some (?nm (Suc i))"
    by (simp add: less_Suc_eq numeral_2_eq_2)
  have r: "automaton Map.empty ''${'' (initial []) = (Done, ?s)"
    by (simp add: engine_defs initial_def)
  have two: "concat (replicate 2 ''${'') = ''${${''" "replicate 2 CHR ''}'' = ''}}''"
    by (simp_all add: numeral_2_eq_2)
  from recursion_limit [of _ ?vars 2 ?nm] h
  have "expand ''${${A}}'' ?vars = (Done, ''C'')"
    by (simp add: two)
  moreover from recursion_limit [of _ Map.empty _ _ "''${''" "[]" ?s True] r
  have "push True ?s \<noteq> (Throw RecursionLimitExceeded, ?s)"
    by simp
  ultimately show ?thesis using r by simp
qed

subsection \<open>Where the engine throws\<close>

lemma pop_throw:
  assumes "pop vars s = (Throw e, s')"
  shows "\<exists>key. e = UnknownVariable key"
  using assms by (auto simp: pop_def lookup_def split: list.splits option.splits)

lemma push_throw:
  assumes "push b s = (Throw e, s')"
  shows "e = RecursionLimitExceeded"
  using assms by (auto simp: push_def split: if_splits)

lemma ident_case_throw:
  assumes "ident_case ch s = (Throw e, s')"
  shows "e = RecursionLimitExceeded"
proof (cases "after_dollar s")
  case False
  with assms show ?thesis by (simp add: ident_case_def)
next
  case True
  obtain r1 s1 where p: "push False s = (r1, s1)" by (cases "push False s")
  with assms True show ?thesis
    by (cases r1) (auto simp: ident_case_def dest: push_throw)
qed

lemma andthen_throw:
  assumes "andthen r k = (Throw e, s')"
  shows "r = (Throw e, s') \<or> (\<exists>s1. r = (Done, s1) \<and> k s1 = (Throw e, s'))"
proof (cases r)
  case (Pair a s1)
  with assms show ?thesis by (cases a) simp_all
qed

subsection \<open>What the stream holds after a throw\<close>

text \<open>The engine only appends to the stream, and never reads it.\<close>

lemma prepend_flags [simp]:
  "after_dollar (prepend_output out s) = after_dollar s"
  "stack (prepend_output out s) = stack s"
  "is_unbraced (prepend_output out s) = is_unbraced s"
  "is_braced (prepend_output out s) = is_braced s"
  "(prepend_output out s)\<lparr>after_dollar := b\<rparr> = prepend_output out (s\<lparr>after_dollar := b\<rparr>)"
  by (simp_all add: prepend_output_def is_unbraced_def is_braced_def)

lemma write_char_prepend: "write_char c (prepend_output out s) = prepend_output out (write_char c s)"
  by (simp add: write_char_def prepend_output_def split: list.splits)

lemma write_str_prepend: "write_str v (prepend_output out s) = prepend_output out (write_str v s)"
  by (simp add: write_str_def prepend_output_def split: list.splits)

lemma push_prepend: "push b (prepend_output out s) = apsnd (prepend_output out) (push b s)"
  by (simp add: push_def prepend_output_def)

lemma pop_prepend: "pop vars (prepend_output out s) = apsnd (prepend_output out) (pop vars s)"
proof (cases "stack s")
  case Nil
  then show ?thesis by (simp add: pop_def)
next
  case (Cons e es)
  have "prepend_output out (s\<lparr>stack := es\<rparr>) = (prepend_output out s)\<lparr>stack := es\<rparr>"
    by (simp add: prepend_output_def)
  with Cons show ?thesis
    by (simp add: pop_def write_str_prepend [symmetric] split: sum.splits)
qed

lemma andthen_apsnd:
  assumes "\<And>s. k' (f s) = apsnd f (k s)"
  shows "andthen (apsnd f r) k' = apsnd f (andthen r k)"
proof (cases r)
  case (Pair a s)
  with assms show ?thesis by (cases a) simp_all
qed

lemma ident_case_prepend:
  "ident_case ch (prepend_output out s) = apsnd (prepend_output out) (ident_case ch s)"
  unfolding ident_case_def
  by (cases "after_dollar s")
     (simp_all add: push_prepend write_char_prepend andthen_apsnd [where k = "\<lambda>s'. (Done, write_char ch s')"])

lemma pop_if_unbraced_prepend:
  "pop_if_unbraced vars (prepend_output out s) = apsnd (prepend_output out) (pop_if_unbraced vars s)"
  by (simp add: pop_if_unbraced_def pop_prepend)

lemma step_prepend:
  "step vars ch (prepend_output out s) = apsnd (prepend_output out) (step vars ch s)"
  unfolding step_def
  by (simp add: push_prepend pop_prepend write_char_prepend ident_case_prepend pop_if_unbraced_prepend
      andthen_apsnd [where k = "\<lambda>s'. (Done, s'\<lparr>after_dollar := True\<rparr>)"]
      andthen_apsnd [where k = "\<lambda>s'. (Done, write_char CHR ''{'' s')"])

lemma automaton_prepend:
  "automaton vars inp (prepend_output out s) = apsnd (prepend_output out) (automaton vars inp s)"
proof (induction inp arbitrary: s)
  case Nil
  show ?case by simp
next
  case (Cons ch inp)
  show ?case
    by (simp add: step_prepend andthen_apsnd [where k = "automaton vars inp"] Cons.IH)
qed

lemma drain_prepend:
  "drain vars (prepend_output out s) = apsnd (prepend_output out) (drain vars s)"
proof (induction vars s rule: drain.induct)
  case (1 vars s)
  show ?case
  proof (cases "stack s = [] \<or> is_braced s")
    case True
    then show ?thesis
      by (auto simp: drain.simps [of vars s] drain.simps [of vars "prepend_output out s"])
  next
    case False
    obtain r s1 where p: "pop vars s = (r, s1)" by (cases "pop vars s")
    then have p': "pop vars (prepend_output out s) = (r, prepend_output out s1)"
      by (simp add: pop_prepend)
    show ?thesis
    proof (cases r)
      case Done
      with False p have "drain vars (prepend_output out s1) = apsnd (prepend_output out) (drain vars s1)"
        by (intro "1.IH") auto
      with False p p' Done show ?thesis
        by (simp add: drain.simps [of vars s] drain.simps [of vars "prepend_output out s"])
    next
      case (Throw e)
      with False p p' show ?thesis
        by (simp add: drain.simps [of vars s] drain.simps [of vars "prepend_output out s"])
    next
      case Abort
      with False p p' show ?thesis
        by (simp add: drain.simps [of vars s] drain.simps [of vars "prepend_output out s"])
    qed
  qed
qed

lemma substitute_vars_prepend:
  "substitute_vars inp out vars =
     (fst (substitute_vars inp [] vars), out @ snd (substitute_vars inp [] vars))"
proof -
  have i: "initial out = prepend_output out (initial [])"
    by (simp add: initial_def prepend_output_def)
  obtain r s where run: "andthen (automaton vars inp (initial [])) (drain vars) = (r, s)"
    by (cases "andthen (automaton vars inp (initial [])) (drain vars)")
  have "andthen (automaton vars inp (initial out)) (drain vars) =
      apsnd (prepend_output out) (andthen (automaton vars inp (initial [])) (drain vars))"
    unfolding i automaton_prepend
    by (rule andthen_apsnd) (rule drain_prepend)
  with run show ?thesis
    by (simp add: substitute_vars_def prepend_output_def)
qed

lemma step_dollar_plain:
  assumes "stack s = []" and "\<not> after_dollar s"
  shows "step vars CHR ''$'' s = (Done, s\<lparr>after_dollar := True\<rparr>)"
  using assms by (simp add: engine_defs)

lemma step_invalid_start:
  assumes "after_dollar s" and "\<not> is_unbraced s" and "is_other_char ch"
  shows "step vars ch s = (Throw (InvalidVariableStart ch), s)"
  using assms by (simp add: step_def is_other_char_def)

lemma run_invalid_after_plain:
  assumes "CHR ''$'' \<notin> set pre" and "is_other_char c"
  shows "substitute_vars (pre @ CHR ''$'' # c # rest) out vars =
    (Throw (InvalidVariableStart c), out @ pre)"
proof -
  let ?s0 = "initial out"
  let ?s1 = "?s0\<lparr>output_text := out @ pre\<rparr>"
  let ?s2 = "?s1\<lparr>after_dollar := True\<rparr>"
  have a: "automaton vars pre ?s0 = (Done, ?s1)"
    using assms(1) automaton_plain [of ?s0 pre vars] by (simp add: initial_def)
  have b: "step vars CHR ''$'' ?s1 = (Done, ?s2)"
    by (intro step_dollar_plain) (simp_all add: initial_def)
  have c: "step vars c ?s2 = (Throw (InvalidVariableStart c), ?s2)"
    using assms(2) by (intro step_invalid_start) (simp_all add: initial_def is_unbraced_def)
  have "automaton vars (pre @ CHR ''$'' # c # rest) ?s0 = (Throw (InvalidVariableStart c), ?s2)"
    by (simp add: automaton_append a b c)
  then show ?thesis
    by (simp add: substitute_vars_def initial_def)
qed

text \<open>What has been put to the stream stays at its front.\<close>

lemma write_char_grows: "prefix (output_text s) (output_text (write_char c s))"
  by (simp add: write_char_def split: list.splits)

lemma write_str_grows: "prefix (output_text s) (output_text (write_str v s))"
  by (simp add: write_str_def split: list.splits)

lemma push_output: "output_text (snd (push b s)) = output_text s"
  by (simp add: push_def)

lemma pop_grows: "prefix (output_text s) (output_text (snd (pop vars s)))"
proof (cases "stack s")
  case Nil
  then show ?thesis by (simp add: pop_def)
next
  case (Cons e es)
  have "prefix (output_text (s\<lparr>stack := es\<rparr>)) (output_text (write_str v (s\<lparr>stack := es\<rparr>)))" for v
    by (rule write_str_grows)
  with Cons show ?thesis
    by (simp add: pop_def split: sum.splits)
qed

lemma andthen_grows:
  assumes "prefix out (output_text (snd r))"
    and "\<And>s. prefix (output_text s) (output_text (snd (k s)))"
  shows "prefix out (output_text (snd (andthen r k)))"
proof (cases r)
  case (Pair a s)
  show ?thesis
  proof (cases a)
    case Done
    with Pair assms(1) assms(2) [of s] show ?thesis
      by (auto intro: prefix_order.trans)
  next
    case (Throw e)
    with Pair assms(1) show ?thesis by simp
  next
    case Abort
    with Pair assms(1) show ?thesis by simp
  qed
qed

lemma pop_if_unbraced_grows: "prefix (output_text s) (output_text (snd (pop_if_unbraced vars s)))"
  by (simp add: pop_if_unbraced_def pop_grows)

lemma ident_case_grows: "prefix (output_text s) (output_text (snd (ident_case ch s)))"
  unfolding ident_case_def
proof (rule andthen_grows)
  show "prefix (output_text s) (output_text (snd (if after_dollar s then push False s else (Done, s))))"
    by (simp add: push_output)
next
  fix s'
  show "prefix (output_text s') (output_text (snd (Done, write_char ch s')))"
    by (simp add: write_char_grows)
qed

lemma step_grows: "prefix (output_text s) (output_text (snd (step vars ch s)))"
proof -
  have a: "prefix (output_text s)
      (output_text (snd (andthen (pop_if_unbraced vars s) (\<lambda>s'. (Done, s'\<lparr>after_dollar := True\<rparr>)))))"
    by (rule andthen_grows) (simp_all add: pop_if_unbraced_grows)
  have b: "prefix (output_text s)
      (output_text (snd (andthen (pop_if_unbraced vars s) (\<lambda>s'. (Done, write_char CHR ''{'' s')))))"
    by (rule andthen_grows) (simp_all add: pop_if_unbraced_grows write_char_grows)
  have w: "prefix (output_text s) (output_text (write_char c (s\<lparr>after_dollar := False\<rparr>)))" for c
    using write_char_grows [of "s\<lparr>after_dollar := False\<rparr>" c] by simp
  have pu: "output_text (snd (push True (s\<lparr>after_dollar := False\<rparr>))) = output_text s"
    by (simp add: push_output)
  from a b w pu show ?thesis
    by (simp add: step_def pop_grows ident_case_grows)
qed

lemma automaton_grows: "prefix (output_text s) (output_text (snd (automaton vars inp s)))"
proof (induction inp arbitrary: s)
  case Nil
  show ?case by simp
next
  case (Cons ch inp)
  show ?case
    by (simp add: andthen_grows step_grows Cons.IH)
qed

lemma drain_grows: "prefix (output_text s) (output_text (snd (drain vars s)))"
proof (induction vars s rule: drain.induct)
  case (1 vars s)
  show ?case
  proof (cases "stack s = [] \<or> is_braced s")
    case True
    then show ?thesis by (auto simp: drain.simps [of vars s])
  next
    case False
    obtain r s1 where p: "pop vars s = (r, s1)" by (cases "pop vars s")
    with pop_grows [of s vars] have g: "prefix (output_text s) (output_text s1)" by simp
    show ?thesis
    proof (cases r)
      case Done
      with False p have "prefix (output_text s1) (output_text (snd (drain vars s1)))"
        by (intro "1.IH") auto
      with g have "prefix (output_text s) (output_text (snd (drain vars s1)))"
        by (rule prefix_order.trans)
      with False p Done show ?thesis by (simp add: drain.simps [of vars s])
    next
      case (Throw e)
      with False p g show ?thesis by (simp add: drain.simps [of vars s])
    next
      case Abort
      with False p g show ?thesis by (simp add: drain.simps [of vars s])
    qed
  qed
qed

lemma output_after_prefix_kept:
  assumes "automaton vars p (initial out) = (Done, s)"
  shows "prefix (output_text s) (snd (substitute_vars (p @ rest) out vars))"
proof -
  have "prefix (output_text s) (output_text (snd (andthen (automaton vars rest s) (drain vars))))"
    by (rule andthen_grows) (simp_all add: automaton_grows drain_grows)
  with assms show ?thesis
    by (auto simp: substitute_vars_def automaton_append split: prod.splits)
qed

text \<open>A throw leaves the stream as it was when the character was read.\<close>

lemma pop_throw_output:
  assumes "pop vars s = (Throw e, s')"
  shows "output_text s' = output_text s"
  using assms by (auto simp: pop_def split: list.splits sum.splits)

lemma push_throw_output:
  assumes "push b s = (Throw e, s')"
  shows "output_text s' = output_text s"
  using assms by (auto simp: push_def split: if_splits)

lemma step_throw_output:
  assumes "step vars ch s = (Throw e, s')"
  shows "output_text s' = output_text s"
proof -
  have piu: "pop_if_unbraced vars s = (Throw e, s') \<Longrightarrow> output_text s' = output_text s"
    by (auto simp: pop_if_unbraced_def dest: pop_throw_output split: if_splits)
  have ic: "ident_case ch s = (Throw e, s') \<Longrightarrow> output_text s' = output_text s"
    by (auto simp: ident_case_def dest!: andthen_throw push_throw_output split: if_splits)
  have pu: "push True (s\<lparr>after_dollar := False\<rparr>) = (Throw e, s') \<Longrightarrow> output_text s' = output_text s"
    using push_throw_output [of True "s\<lparr>after_dollar := False\<rparr>" e s'] by simp
  from assms piu ic pu show ?thesis
    by (auto simp: step_def dest!: andthen_throw dest: pop_throw_output split: if_splits)
qed

lemma pop_done_output:
  assumes "pop vars s = (Done, s')" and "stack s' \<noteq> []"
  shows "output_text s' = output_text s"
  using assms by (auto simp: pop_def write_str_def split: list.splits sum.splits)

lemma drain_throw_output:
  assumes "drain vars s = (Throw e, s')"
  shows "output_text s' = output_text s"
  using assms
proof (induction vars s rule: drain.induct)
  case (1 vars s)
  show ?case
  proof (cases "stack s = [] \<or> is_braced s")
    case True
    with "1.prems" show ?thesis
      by (auto simp: drain.simps [of vars s] split: if_splits)
  next
    case False
    obtain r s1 where p: "pop vars s = (r, s1)" by (cases "pop vars s")
    show ?thesis
    proof (cases r)
      case Done
      with False p "1.prems" have d: "drain vars s1 = (Throw e, s')"
        by (simp add: drain.simps [of vars s])
      then have "stack s1 \<noteq> []"
        by (auto simp: drain_empty)
      with p Done have "output_text s1 = output_text s"
        by (intro pop_done_output) auto
      moreover from False p Done d have "output_text s' = output_text s1"
        by (intro "1.IH") auto
      ultimately show ?thesis by simp
    next
      case (Throw e1)
      with False p "1.prems" pop_throw_output [of vars s e1 s1] show ?thesis
        by (auto simp: drain.simps [of vars s])
    next
      case Abort
      with False p "1.prems" show ?thesis
        by (simp add: drain.simps [of vars s])
    qed
  qed
qed

lemma automaton_throw_split:
  assumes "automaton vars inp s0 = (Throw e, s')"
  shows "\<exists>p c rest s. inp = p @ c # rest \<and> automaton vars p s0 = (Done, s)
    \<and> step vars c s = (Throw e, s')"
  using assms
proof (induction inp arbitrary: s0)
  case Nil
  then show ?case by simp
next
  case (Cons ch inp)
  from Cons.prems have "andthen (step vars ch s0) (automaton vars inp) = (Throw e, s')"
    by simp
  then consider
      (here) "step vars ch s0 = (Throw e, s')"
    | (later) s1 where "step vars ch s0 = (Done, s1)" "automaton vars inp s1 = (Throw e, s')"
    using andthen_throw by blast
  then show ?case
  proof cases
    case here
    then have "ch # inp = [] @ ch # inp \<and> automaton vars [] s0 = (Done, s0)
        \<and> step vars ch s0 = (Throw e, s')"
      by simp
    then show ?thesis by blast
  next
    case later
    from Cons.IH [OF later(2)] obtain p c rest s where
      *: "inp = p @ c # rest" "automaton vars p s1 = (Done, s)" "step vars c s = (Throw e, s')"
      by blast
    with later(1) have "ch # inp = (ch # p) @ c # rest \<and> automaton vars (ch # p) s0 = (Done, s)
        \<and> step vars c s = (Throw e, s')"
      by simp
    then show ?thesis by blast
  qed
qed

lemma output_at_throw:
  assumes "fst (substitute_vars inp out vars) = Throw e"
  shows "\<exists>p rest s. inp = p @ rest \<and> automaton vars p (initial out) = (Done, s)
    \<and> snd (substitute_vars inp out vars) = output_text s"
proof -
  obtain r1 s1 where a: "automaton vars inp (initial out) = (r1, s1)"
    by (cases "automaton vars inp (initial out)")
  show ?thesis
  proof (cases r1)
    case Done
    obtain r2 s2 where d: "drain vars s1 = (r2, s2)" by (cases "drain vars s1")
    with assms a Done have "drain vars s1 = (Throw e, s2)"
      by (simp add: substitute_vars_def)
    then have "output_text s2 = output_text s1"
      by (rule drain_throw_output)
    with a Done d have "inp = inp @ [] \<and> automaton vars inp (initial out) = (Done, s1)
        \<and> snd (substitute_vars inp out vars) = output_text s1"
      by (simp add: substitute_vars_def)
    then show ?thesis by blast
  next
    case (Throw e1)
    with assms a have t: "automaton vars inp (initial out) = (Throw e, s1)"
      by (simp add: substitute_vars_def)
    from automaton_throw_split [OF t] obtain p c rest s where
      *: "inp = p @ c # rest" "automaton vars p (initial out) = (Done, s)"
         "step vars c s = (Throw e, s1)"
      by blast
    from *(3) have "output_text s1 = output_text s"
      by (rule step_throw_output)
    with t * have "inp = p @ (c # rest) \<and> automaton vars p (initial out) = (Done, s)
        \<and> snd (substitute_vars inp out vars) = output_text s"
      by (simp add: substitute_vars_def)
    then show ?thesis by blast
  next
    case Abort
    with assms a show ?thesis by (simp add: substitute_vars_def)
  qed
qed

text \<open>
  C2 (as amended): a call that throws does not take back what it has put to the stream.
  The stream after any call, failing or not, is the stream before the call followed by
  what the same call writes to an empty stream. Whatever the stream holds once a part
  \<open>p\<close> of the template has been scanned is still at the front of the stream when the
  call on the whole template ends, however it ends. When the call throws, for whichever
  of the four reasons, the stream holds exactly what it held after the scan of some
  front part of the template. And when the call fails at an invalid character after a
  dollar sign that follows dollar-free text, that text has been written and stays in
  the stream.
\<close>

theorem output_kept_on_failure:
  "substitute_vars inp out vars =
     (fst (substitute_vars inp [] vars), out @ snd (substitute_vars inp [] vars))
   \<and> (automaton vars p (initial out) = (Done, s) \<longrightarrow>
        prefix (output_text s) (snd (substitute_vars (p @ rest) out vars)))
   \<and> (fst (substitute_vars inp out vars) = Throw e \<longrightarrow>
        (\<exists>q r t. inp = q @ r \<and> automaton vars q (initial out) = (Done, t)
           \<and> snd (substitute_vars inp out vars) = output_text t))
   \<and> (CHR ''$'' \<notin> set pre \<and> is_other_char c \<longrightarrow>
        substitute_vars (pre @ CHR ''$'' # c # rest) out vars =
          (Throw (InvalidVariableStart c), out @ pre))"
proof (intro conjI impI)
  show "substitute_vars inp out vars =
     (fst (substitute_vars inp [] vars), out @ snd (substitute_vars inp [] vars))"
    by (rule substitute_vars_prepend)
next
  assume "automaton vars p (initial out) = (Done, s)"
  then show "prefix (output_text s) (snd (substitute_vars (p @ rest) out vars))"
    by (rule output_after_prefix_kept)
next
  assume "fst (substitute_vars inp out vars) = Throw e"
  then show "\<exists>q r t. inp = q @ r \<and> automaton vars q (initial out) = (Done, t)
           \<and> snd (substitute_vars inp out vars) = output_text t"
    by (rule output_at_throw)
next
  assume "CHR ''$'' \<notin> set pre \<and> is_other_char c"
  then show "substitute_vars (pre @ CHR ''$'' # c # rest) out vars =
          (Throw (InvalidVariableStart c), out @ pre)"
    using run_invalid_after_plain [of pre c rest out vars] by blast
qed

theorem output_kept_on_failure_witness:
  "automaton Map.empty ''ab'' (initial ''PS1='') =
     (Done, \<lparr>after_dollar = False, stack = [], output_text = ''PS1=ab''\<rparr>)
   \<and> substitute_vars ''ab${X}cd'' ''PS1='' Map.empty = (Throw (UnknownVariable ''X''), ''PS1=ab'')
   \<and> prefix ''PS1=ab'' (snd (substitute_vars ''ab${X}cd'' ''PS1='' Map.empty))
   \<and> (\<exists>q r t. ''ab${X}cd'' = q @ r \<and> automaton Map.empty q (initial ''PS1='') = (Done, t)
        \<and> snd (substitute_vars ''ab${X}cd'' ''PS1='' Map.empty) = output_text t)
   \<and> substitute_vars ''ab$!cd'' ''PS1='' Map.empty =
     (Throw (InvalidVariableStart CHR ''!''), ''PS1=ab'')"
proof -
  let ?s = "\<lparr>after_dollar = False, stack = [], output_text = ''PS1=ab''\<rparr>"
  have run: "automaton Map.empty ''ab'' (initial ''PS1='') = (Done, ?s)"
    by (simp add: engine_defs initial_def is_ident_char_def)
  have fails: "substitute_vars ''ab${X}cd'' ''PS1='' Map.empty = (Throw (UnknownVariable ''X''), ''PS1=ab'')"
    by (simp add: substitute_vars_def initial_def engine_defs is_ident_char_def)
  have other: "is_other_char CHR ''!''"
    by (simp add: is_other_char_def is_ident_char_def)
  note inst = output_kept_on_failure
    [of "''ab${X}cd''" "''PS1=''" Map.empty "''ab''" ?s "''${X}cd''" "UnknownVariable ''X''"
        "''ab''" "CHR ''!''"]
  from inst [THEN conjunct2, THEN conjunct1] run have a: "prefix ''PS1=ab'' (snd (substitute_vars ''ab${X}cd'' ''PS1='' Map.empty))"
    by simp
  from inst [THEN conjunct2, THEN conjunct2, THEN conjunct1] fails have b: "\<exists>q r t. ''ab${X}cd'' = q @ r
      \<and> automaton Map.empty q (initial ''PS1='') = (Done, t)
      \<and> snd (substitute_vars ''ab${X}cd'' ''PS1='' Map.empty) = output_text t"
    by simp
  from output_kept_on_failure
    [of "[]" "''PS1=''" Map.empty "[]" ?s "''cd''" "UnknownVariable ''X''" "''ab''" "CHR ''!''",
      THEN conjunct2, THEN conjunct2, THEN conjunct2] other
  have c: "substitute_vars ''ab$!cd'' ''PS1='' Map.empty =
     (Throw (InvalidVariableStart CHR ''!''), ''PS1=ab'')"
    by simp
  from run fails a b c show ?thesis by blast
qed

text \<open>
  Without the amendment the statement fails: a stream that held \<open>PS1=\<close> holds
  \<open>PS1=ab\<close> after the call on \<open>ab$!\<close> has thrown.
\<close>

theorem partial_output_counterexample:
  "operator_shl ''PS1='' \<lparr>input = ''ab$!'', variables = Map.empty\<rparr> =
     (Throw (InvalidVariableStart CHR ''!''), ''PS1=ab'')
   \<and> expand ''ab$!'' Map.empty = (Throw (InvalidVariableStart CHR ''!''), ''ab'')"
  by (simp add: run_defs engine_defs is_ident_char_def)

subsection \<open>Invalid variable start\<close>

lemma step_throw_invalid:
  assumes "step vars ch s = (Throw (InvalidVariableStart c), s')"
  shows "ch = c \<and> after_dollar s \<and> is_other_char c"
proof -
  have no_pop: "\<And>t t'. pop vars t \<noteq> (Throw (InvalidVariableStart c), t')"
    using pop_throw by fastforce
  have no_push: "\<And>b t t'. push b t \<noteq> (Throw (InvalidVariableStart c), t')"
    using push_throw by fastforce
  have no_ident: "\<And>t t'. ident_case ch t \<noteq> (Throw (InvalidVariableStart c), t')"
    using ident_case_throw by fastforce
  have no_piu: "\<And>t t'. pop_if_unbraced vars t \<noteq> (Throw (InvalidVariableStart c), t')"
    using no_pop by (simp add: pop_if_unbraced_def)
  show ?thesis
  proof (cases "ch = CHR ''$'' \<or> ch = CHR ''{'' \<or> ch = CHR ''}'' \<or> is_ident_char ch")
    case True
    with assms no_pop no_push no_ident no_piu show ?thesis
      by (auto simp: step_def split: if_splits dest!: andthen_throw)
  next
    case False
    with assms no_pop no_ident show ?thesis
      by (auto simp: step_def is_other_char_def split: if_splits)
  qed
qed

lemma drain_throw:
  assumes "drain vars s = (Throw e, s')"
  shows "e = UnterminatedBracedVariable \<or> (\<exists>key. e = UnknownVariable key)"
  using assms
proof (induction vars s rule: drain.induct)
  case (1 vars s)
  show ?case
  proof (cases "stack s = [] \<or> is_braced s")
    case True
    with "1.prems" show ?thesis
      by (auto simp: drain.simps [of vars s] split: if_splits)
  next
    case False
    obtain r s1 where p: "pop vars s = (r, s1)" by (cases "pop vars s")
    show ?thesis
    proof (cases r)
      case Done
      with False p "1.prems" have "drain vars s1 = (Throw e, s')"
        by (simp add: drain.simps [of vars s])
      with False p Done show ?thesis
        by (intro "1.IH") auto
    next
      case (Throw e1)
      with False p "1.prems" pop_throw [of vars s e1 s1] show ?thesis
        by (auto simp: drain.simps [of vars s])
    next
      case Abort
      with False p "1.prems" show ?thesis
        by (simp add: drain.simps [of vars s])
    qed
  qed
qed

lemma automaton_throw_invalid:
  assumes "automaton vars inp s = (Throw (InvalidVariableStart c), s')"
  shows "\<exists>p r st. inp = p @ c # r \<and> automaton vars p s = (Done, st)
    \<and> after_dollar st \<and> is_other_char c"
  using assms
proof (induction inp arbitrary: s)
  case Nil
  then show ?case by simp
next
  case (Cons ch inp)
  from Cons.prems have "andthen (step vars ch s) (automaton vars inp) = (Throw (InvalidVariableStart c), s')"
    by simp
  then consider
      (here) "step vars ch s = (Throw (InvalidVariableStart c), s')"
    | (later) s1 where "step vars ch s = (Done, s1)"
        "automaton vars inp s1 = (Throw (InvalidVariableStart c), s')"
    using andthen_throw by blast
  then show ?case
  proof cases
    case here
    then have "ch = c \<and> after_dollar s \<and> is_other_char c"
      by (rule step_throw_invalid)
    then have "ch # inp = [] @ c # inp \<and> automaton vars [] s = (Done, s)
        \<and> after_dollar s \<and> is_other_char c"
      by simp
    then show ?thesis by blast
  next
    case later
    from Cons.IH [OF later(2)] obtain p r st where
      *: "inp = p @ c # r" "automaton vars p s1 = (Done, st)" "after_dollar st" "is_other_char c"
      by blast
    with later(1) have "ch # inp = (ch # p) @ c # r \<and> automaton vars (ch # p) s = (Done, st)
        \<and> after_dollar st \<and> is_other_char c"
      by simp
    then show ?thesis by blast
  qed
qed

lemma expand_throw_invalid:
  assumes "fst (expand inp vars) = Throw (InvalidVariableStart c)"
  shows "\<exists>p r st. inp = p @ c # r \<and> automaton vars p (initial []) = (Done, st)
    \<and> after_dollar st \<and> is_other_char c"
proof -
  obtain r1 s1 where a: "automaton vars inp (initial []) = (r1, s1)"
    by (cases "automaton vars inp (initial [])")
  show ?thesis
  proof (cases r1)
    case Done
    obtain r2 s2 where d: "drain vars s1 = (r2, s2)" by (cases "drain vars s1")
    with assms a Done have "drain vars s1 = (Throw (InvalidVariableStart c), s2)"
      by (simp add: run_defs)
    from drain_throw [OF this] show ?thesis by simp
  next
    case (Throw e)
    with assms a have "automaton vars inp (initial []) = (Throw (InvalidVariableStart c), s1)"
      by (simp add: run_defs)
    then show ?thesis by (rule automaton_throw_invalid)
  next
    case Abort
    with assms a show ?thesis by (simp add: run_defs)
  qed
qed

lemma expand_invalid_start:
  assumes "automaton vars p (initial []) = (Done, st)" and "after_dollar st"
    and "\<not> is_unbraced st" and "is_other_char c"
  shows "expand (p @ c # r) vars = (Throw (InvalidVariableStart c), output_text st)"
proof -
  from assms have "step vars c st = (Throw (InvalidVariableStart c), st)"
    by (intro step_invalid_start)
  with assms(1) have "automaton vars (p @ c # r) (initial []) = (Throw (InvalidVariableStart c), st)"
    by (simp add: automaton_append)
  then show ?thesis
    by (simp add: run_defs)
qed

text \<open>
  C3: what the code does where the claim speaks of a dollar sign followed by a character
  that cannot start a variable. \<open>expand("$!", {})\<close> throws InvalidVariableStart('!') as
  the claim says. On \<open>$a  b\<close> with \<open>a\<close> mapped to \<open>x\<close> the only dollar sign is followed by
  the identifier character \<open>a\<close>, yet the call throws InvalidVariableStart(' ') at the
  second space: the flag \<open>after_dollar\<close> is still set when the first space has resolved
  the frame. On \<open>$ab}$!\<close> the second dollar sign is read with the flag false and is
  followed by \<open>!\<close>, yet nothing is thrown: the frame left on top is resolved instead.
\<close>

theorem invalid_variable_start_evaluated:
  "expand ''$!'' Map.empty = (Throw (InvalidVariableStart CHR ''!''), [])
   \<and> expand ''$a  b'' [''a'' \<mapsto> ''x''] = (Throw (InvalidVariableStart CHR '' ''), ''x'')
   \<and> automaton [''a'' \<mapsto> ''x''] ''$a '' (initial []) =
       (Done, \<lparr>after_dollar = True, stack = [], output_text = ''x''\<rparr>)
   \<and> expand ''$ab}$!'' [''b}'' \<mapsto> [], ''a'' \<mapsto> ''x''] = (Done, ''x'')"
  by (simp add: run_defs engine_defs is_ident_char_def drain.simps)

subsection \<open>What a frame can hold\<close>



lemma flag_within [simp]: "frames_within A (s\<lparr>after_dollar := b\<rparr>) = frames_within A s"
  by (simp add: frames_within_def)











subsection \<open>The assertion in \<open>pop\<close>\<close>

text \<open>\<open>pop\<close> is only called with a frame on the stack, so its assertion never fails.\<close>

lemma pop_no_abort:
  assumes "stack s \<noteq> []"
  shows "fst (pop vars s) \<noteq> Abort"
  using assms by (auto simp: pop_def split: list.splits sum.splits)

lemma andthen_no_abort:
  assumes "fst r \<noteq> Abort" and "\<And>s. fst (k s) \<noteq> Abort"
  shows "fst (andthen r k) \<noteq> Abort"
proof (cases r)
  case (Pair a s)
  with assms show ?thesis by (cases a) auto
qed

lemma pop_if_unbraced_no_abort: "fst (pop_if_unbraced vars s) \<noteq> Abort"
  by (auto simp: pop_if_unbraced_def is_unbraced_def pop_no_abort split: list.splits)

lemma push_no_abort: "fst (push b s) \<noteq> Abort"
  by (simp add: push_def)

lemma ident_case_no_abort: "fst (ident_case ch s) \<noteq> Abort"
  unfolding ident_case_def by (intro andthen_no_abort) (simp_all add: push_no_abort)

lemma step_no_abort: "fst (step vars ch s) \<noteq> Abort"
proof -
  have a: "fst (andthen (pop_if_unbraced vars s) (\<lambda>s'. (Done, s'\<lparr>after_dollar := True\<rparr>))) \<noteq> Abort"
    by (intro andthen_no_abort pop_if_unbraced_no_abort) simp
  have b: "fst (andthen (pop_if_unbraced vars s) (\<lambda>s'. (Done, write_char CHR ''{'' s'))) \<noteq> Abort"
    by (intro andthen_no_abort pop_if_unbraced_no_abort) simp
  have c: "is_braced s \<Longrightarrow> fst (pop vars s) \<noteq> Abort"
    by (intro pop_no_abort) (auto simp: is_braced_def)
  have d: "is_unbraced s \<Longrightarrow> fst (pop vars s) \<noteq> Abort"
    by (intro pop_no_abort) (auto simp: is_unbraced_def)
  from a b c d show ?thesis
    by (simp add: step_def push_no_abort ident_case_no_abort)
qed

lemma automaton_no_abort: "fst (automaton vars inp s) \<noteq> Abort"
proof (induction inp arbitrary: s)
  case Nil
  show ?case by simp
next
  case (Cons ch inp)
  show ?case
    by (simp add: andthen_no_abort step_no_abort Cons.IH)
qed

lemma drain_no_abort: "fst (drain vars s) \<noteq> Abort"
proof (induction vars s rule: drain.induct)
  case (1 vars s)
  show ?case
  proof (cases "stack s = [] \<or> is_braced s")
    case True
    then show ?thesis by (auto simp: drain.simps [of vars s])
  next
    case False
    obtain r s1 where p: "pop vars s = (r, s1)" by (cases "pop vars s")
    from False have "fst (pop vars s) \<noteq> Abort" by (intro pop_no_abort) simp
    with p have r: "r \<noteq> Abort" by simp
    show ?thesis
    proof (cases r)
      case Done
      with False p have "fst (drain vars s1) \<noteq> Abort"
        by (intro "1.IH") auto
      with False p Done show ?thesis by (simp add: drain.simps [of vars s])
    next
      case (Throw e)
      with False p show ?thesis by (simp add: drain.simps [of vars s])
    next
      case Abort
      with r show ?thesis by simp
    qed
  qed
qed

lemma substitute_vars_no_abort: "fst (substitute_vars inp out vars) \<noteq> Abort"
proof -
  have "fst (andthen (automaton vars inp (initial out)) (drain vars)) \<noteq> Abort"
    by (intro andthen_no_abort automaton_no_abort drain_no_abort)
  then show ?thesis
    by (auto simp: substitute_vars_def split: prod.splits)
qed

subsection \<open>End of input\<close>

lemma drain_braced_top:
  assumes "is_braced s"
  shows "drain vars s = (Throw UnterminatedBracedVariable, s)"
  using assms by (auto simp: drain.simps [of vars s] is_braced_def)

lemma drain_unbraced_top:
  assumes "is_unbraced s"
  shows "drain vars s = andthen (pop vars s) (drain vars)"
proof -
  from assms have "stack s \<noteq> []" "\<not> is_braced s"
    by (auto simp: is_unbraced_def is_braced_def split: list.splits)
  then show ?thesis
    by (cases "pop vars s" rule: prod.exhaust [case_names Pair])
       (auto simp: drain.simps [of vars s] andthen_def split: outcome.splits)
qed

text \<open>The second loop never reads the flag \<open>after_dollar\<close>.\<close>

lemma pop_flag:
  "pop vars (s\<lparr>after_dollar := b\<rparr>) = apsnd (\<lambda>u. u\<lparr>after_dollar := b\<rparr>) (pop vars s)"
  by (simp add: pop_def write_str_def split: list.splits sum.splits)

lemma drain_flag:
  "drain vars (s\<lparr>after_dollar := b\<rparr>) = apsnd (\<lambda>u. u\<lparr>after_dollar := b\<rparr>) (drain vars s)"
proof (induction vars s rule: drain.induct)
  case (1 vars s)
  let ?s = "s\<lparr>after_dollar := b\<rparr>"
  have same: "is_braced ?s = is_braced s" "stack ?s = stack s"
    by (simp_all add: is_braced_def)
  show ?case
  proof (cases "stack s = [] \<or> is_braced s")
    case True
    then show ?thesis
      by (auto simp: drain.simps [of vars s] drain.simps [of vars ?s] same)
  next
    case False
    obtain r s1 where p: "pop vars s = (r, s1)" by (cases "pop vars s")
    then have p': "pop vars ?s = (r, s1\<lparr>after_dollar := b\<rparr>)"
      by (simp add: pop_flag)
    show ?thesis
    proof (cases r)
      case Done
      with False p have "drain vars (s1\<lparr>after_dollar := b\<rparr>) =
          apsnd (\<lambda>u. u\<lparr>after_dollar := b\<rparr>) (drain vars s1)"
        by (intro "1.IH") auto
      with False p p' Done show ?thesis
        by (simp add: drain.simps [of vars s] drain.simps [of vars ?s] same)
    next
      case (Throw e)
      with False p p' show ?thesis
        by (simp add: drain.simps [of vars s] drain.simps [of vars ?s] same)
    next
      case Abort
      with False p p' show ?thesis
        by (simp add: drain.simps [of vars s] drain.simps [of vars ?s] same)
    qed
  qed
qed

subsection \<open>Unbraced references\<close>

text \<open>
  At the \<open>default\<close> label, an unbraced frame on top is resolved and the \<open>switch\<close> is
  left: the character that ended the name is not written.
\<close>

lemma step_other_on_unbraced:
  assumes "is_unbraced s" and "is_other_char ch"
  shows "step vars ch s = pop vars s"
  using assms by (simp add: step_def is_other_char_def)

text \<open>An identifier character read with the flag set leaves the flag set.\<close>

lemma step_ident_after_dollar:
  assumes "after_dollar s" and "is_ident_char ch" and "length (stack s) < 1024"
  shows "step vars ch s =
    (Done, s\<lparr>stack := \<lparr>braced = False, contents = [ch]\<rparr> # stack s\<rparr>)"
proof -
  from assms(2) have "ch \<noteq> CHR ''$''" "ch \<noteq> CHR ''{''" "ch \<noteq> CHR ''}''"
    by (auto simp: is_ident_char_def)
  with assms show ?thesis
    by (simp add: step_def ident_case_def push_def write_char_def)
qed

text \<open>
  C1: what the code does on the claim's example \<open>expand("$A-b", {"A":"x"})\<close>, which the
  claim gives as \<open>x-b\<close>, and in a state the scan reaches with the flag false and an
  unbraced frame on top (after \<open>$A}\<close>): reading \<open>-\<close> resolves the frame and writes
  nothing else, so \<open>expand("$A}-b", {"A}":"x"})\<close> is \<open>xb\<close>.
\<close>

theorem other_char_after_unbraced_evaluated:
  "expand ''$A-b'' [''A'' \<mapsto> ''x''] = (Throw (UnknownVariable ''b''), ''x'')
   \<and> automaton [''A}'' \<mapsto> ''x''] ''$A}'' (initial []) =
       (Done, \<lparr>after_dollar = False, stack = [\<lparr>braced = False, contents = ''A}''\<rparr>],
               output_text = []\<rparr>)
   \<and> step [''A}'' \<mapsto> ''x''] CHR ''-''
       \<lparr>after_dollar = False, stack = [\<lparr>braced = False, contents = ''A}''\<rparr>], output_text = []\<rparr> =
       (Done, \<lparr>after_dollar = False, stack = [], output_text = ''x''\<rparr>)
   \<and> expand ''$A}-b'' [''A}'' \<mapsto> ''x''] = (Done, ''xb'')"
  by (simp add: run_defs engine_defs is_ident_char_def drain.simps)

text \<open>
  C6: what the code does on the claim's examples. On \<open>expand("$FOO", {"FOO":"bar"})\<close>,
  which the claim gives as \<open>bar\<close>, the scan leaves three unbraced frames, one for each
  letter, and the loop at the end of input throws for the name \<open>O\<close>.
  \<open>expand("${UNCLOSED", {})\<close> throws UnterminatedBracedVariable.
\<close>

theorem end_of_input_evaluated:
  "automaton [''FOO'' \<mapsto> ''bar''] ''$FOO'' (initial []) =
     (Done, \<lparr>after_dollar = True,
             stack = [\<lparr>braced = False, contents = ''O''\<rparr>, \<lparr>braced = False, contents = ''O''\<rparr>,
                      \<lparr>braced = False, contents = ''F''\<rparr>],
             output_text = []\<rparr>)
   \<and> expand ''$FOO'' [''FOO'' \<mapsto> ''bar''] = (Throw (UnknownVariable ''O''), [])
   \<and> expand ''${UNCLOSED'' Map.empty = (Throw UnterminatedBracedVariable, [])"
  by (simp add: run_defs engine_defs is_ident_char_def drain.simps)

text \<open>
  C10: what the code does when a dollar sign is added to a template whose call succeeds.
  \<open>expand("$A", {"A":"x"})\<close> is \<open>x\<close>, but the scan of \<open>$A\<close> ends with the flag
  \<open>after_dollar\<close> still set, so the added dollar sign is taken for the second of a pair
  and written into the frame: \<open>expand("$A$", {"A":"x"})\<close> throws for the name \<open>A$\<close>. After a
  braced reference the flag is false and the added dollar sign is dropped, as the claim
  says.
\<close>

theorem trailing_dollar_evaluated:
  "expand ''$A'' [''A'' \<mapsto> ''x''] = (Done, ''x'')
   \<and> automaton [''A'' \<mapsto> ''x''] ''$A'' (initial []) =
       (Done, \<lparr>after_dollar = True, stack = [\<lparr>braced = False, contents = ''A''\<rparr>], output_text = []\<rparr>)
   \<and> expand (''$A'' @ ''$'') [''A'' \<mapsto> ''x''] = (Throw (UnknownVariable ''A$''), [])
   \<and> expand ''${A}'' [''A'' \<mapsto> ''x''] = (Done, ''x'')
   \<and> expand (''${A}'' @ ''$'') [''A'' \<mapsto> ''x''] = (Done, ''x'')"
  by (simp add: run_defs engine_defs is_ident_char_def drain.simps)

end
